theory Spec2Isabelle
  imports Complex_Main "HOL-Library.Multiset"
begin

section \<open>Tempo estimation of madmom (madmom/features/tempo.py)\<close>

text \<open>
  The module is Python 2 code on top of numpy and scipy. One-dimensional float arrays are
  modelled as lists of reals (the arithmetic is the exact one, rounding of float64 is not
  part of the model), integer arrays as lists of integers. A raised exception is a value
  of the type \<open>error\<close> on the left of a sum. Results of numpy true division, which may be
  infinite or not a number, are values of \<open>npfloat\<close>.
\<close>

subsection \<open>Values\<close>

datatype error = ValueError | IndexError | ZeroDivisionError

datatype npfloat = NaN | PInf | NInf | Fin real

text \<open>\<open>NO_TEMPO = np.nan\<close>\<close>

definition NO_TEMPO :: npfloat where
  "NO_TEMPO = NaN"

text \<open>
  The argument \<open>smooth\<close> of the helper functions: \<open>None\<close>, an \<open>int\<close> (a kernel size) or
  an \<open>np.ndarray\<close> (the kernel itself).
\<close>

datatype smooth = SNone | KernelSize int | KernelWeights "real list"

type_synonym histogram = "real list \<times> int list"

subsection \<open>The numpy and scipy primitives the module calls\<close>

text \<open>
  \<open>np.hamming(M)\<close>: empty for \<open>M < 1\<close>, \<open>[1.]\<close> for \<open>M = 1\<close>, and otherwise
  \<open>0.54 - 0.46 * cos(2 * pi * n / (M - 1))\<close> for \<open>0 \<le> n < M\<close>.
\<close>

definition hamming :: "int \<Rightarrow> real list" where
  "hamming M =
     (if M < 1 then []
      else if M = 1 then [1]
      else map (\<lambda>n. 0.54 - 0.46 * cos (2 * pi * real n / real_of_int (M - 1))) [0..<nat M])"

text \<open>
  The full linear convolution: entry \<open>s\<close> is the sum of \<open>a[m] * v[s - m]\<close> over the
  indices \<open>m\<close> for which both factors exist; it has \<open>len(a) + len(v) - 1\<close> entries.
\<close>

definition conv_full :: "real list \<Rightarrow> real list \<Rightarrow> real list" where
  "conv_full a v =
     map (\<lambda>s. \<Sum>m\<leftarrow>[0..<length a].
                 (if m \<le> s \<and> s - m < length v then a ! m * v ! (s - m) else 0))
         [0..<length a + length v - 1]"

text \<open>
  \<open>np.convolve(a, v, 'same')\<close>: raises \<open>ValueError\<close> when one of the arrays is empty;
  otherwise the central part of the full convolution, of length \<open>max(len(a), len(v))\<close>,
  starting at offset \<open>(min(len(a), len(v)) - 1) // 2\<close>.
\<close>

definition convolve_same :: "real list \<Rightarrow> real list \<Rightarrow> error + real list" where
  "convolve_same a v =
     (if a = [] \<or> v = [] then Inl ValueError
      else Inr (take (max (length a) (length v))
                  (drop ((min (length a) (length v) - 1) div 2) (conv_full a v))))"

text \<open>
  Truth value of a \<open>smooth\<close> argument in \<open>if smooth:\<close>. \<open>None\<close> and \<open>0\<close> are false; an
  empty array is false, an array of one element has the truth value of that element, and
  the truth value of a longer array raises \<open>ValueError\<close>.
\<close>

definition truthy :: "smooth \<Rightarrow> error + bool" where
  "truthy s =
     (case s of
        SNone \<Rightarrow> Inr False
      | KernelSize n \<Rightarrow> Inr (n \<noteq> 0)
      | KernelWeights w \<Rightarrow>
          (if length w = 0 then Inr False
           else if length w = 1 then Inr (hd w \<noteq> 0)
           else Inl ValueError))"

text \<open>The slices \<open>xs[i:]\<close> and \<open>xs[0:j]\<close> of Python, for integers of either sign.\<close>

definition slice_from :: "'a list \<Rightarrow> int \<Rightarrow> 'a list" where
  "slice_from xs i =
     (if 0 \<le> i then drop (nat i) xs else drop (length xs - nat (- i)) xs)"

definition slice_upto :: "'a list \<Rightarrow> int \<Rightarrow> 'a list" where
  "slice_upto xs j =
     (if 0 \<le> j then take (nat j) xs else take (length xs - nat (- j)) xs)"

text \<open>
  The product \<open>xs * ys\<close> of two one-dimensional arrays: element-wise for equal lengths,
  an array of one element is broadcast, any other pair of lengths raises \<open>ValueError\<close>.
\<close>

definition np_mul :: "real list \<Rightarrow> real list \<Rightarrow> error + real list" where
  "np_mul xs ys =
     (if length xs = length ys then Inr (map2 (*) xs ys)
      else if length xs = 1 then Inr (map (\<lambda>y. hd xs * y) ys)
      else if length ys = 1 then Inr (map (\<lambda>x. x * hd ys) xs)
      else Inl ValueError)"

subsection \<open>smooth_signal and smooth_histogram\<close>

definition smooth_signal :: "real list \<Rightarrow> smooth \<Rightarrow> error + real list" where
  "smooth_signal signal smooth =
     (let kernel =
        (case smooth of
           KernelSize n \<Rightarrow> (if n > 1 then Some (hamming n) else None)
         | KernelWeights w \<Rightarrow> (if length w > 1 then Some w else None)
         | SNone \<Rightarrow> None)
      in case kernel of
           None \<Rightarrow> Inl ValueError
         | Some k \<Rightarrow> convolve_same signal k)"

definition smooth_histogram :: "histogram \<Rightarrow> smooth \<Rightarrow> error + histogram" where
  "smooth_histogram histogram smooth =
     (case smooth_signal (fst histogram) smooth of
        Inl e \<Rightarrow> Inl e
      | Inr bins \<Rightarrow> Inr (bins, snd histogram))"

subsection \<open>interval_histogram\<close>

text \<open>
  The loop over \<open>taus\<close>: each bin is \<open>np.sum(np.abs(activations[tau:] * activations[0:-tau]))\<close>;
  the first product that cannot be broadcast ends the loop with its error.
\<close>

fun hist_bins :: "real list \<Rightarrow> int list \<Rightarrow> error + real list" where
  "hist_bins activations [] = Inr []"
| "hist_bins activations (tau # taus) =
     (case np_mul (slice_from activations tau) (slice_upto activations (- tau)) of
        Inl e \<Rightarrow> Inl e
      | Inr p \<Rightarrow>
          (case hist_bins activations taus of
             Inl e \<Rightarrow> Inl e
           | Inr bins \<Rightarrow> Inr (sum_list (map abs p) # bins)))"

definition interval_histogram ::
  "real list \<Rightarrow> smooth \<Rightarrow> int \<Rightarrow> int option \<Rightarrow> error + histogram" where
  "interval_histogram activations smooth min_tau max_tau =
     (case truthy smooth of
        Inl e \<Rightarrow> Inl e
      | Inr b \<Rightarrow>
          (case (if b then smooth_signal activations smooth else Inr activations) of
             Inl e \<Rightarrow> Inl e
           | Inr activations' \<Rightarrow>
               (let max_tau' = (case max_tau of
                                  None \<Rightarrow> int (length activations') - min_tau
                                | Some m \<Rightarrow> m);
                    taus = [min_tau..max_tau' - 1]
                in case hist_bins activations' taus of
                     Inl e \<Rightarrow> Inl e
                   | Inr bins \<Rightarrow> Inr (bins, taus))))"

subsection \<open>Primitives of Tempo.detect\<close>

text \<open>
  The built-in \<open>round\<close> of Python 2 rounds halves away from zero; \<open>np.round\<close> rounds
  halves to the even neighbour.
\<close>

definition py_round :: "real \<Rightarrow> int" where
  "py_round x = (if 0 \<le> x then \<lfloor>x + 1 / 2\<rfloor> else \<lceil>x - 1 / 2\<rceil>)"

definition np_round :: "real \<Rightarrow> int" where
  "np_round x =
     (let f = \<lfloor>x\<rfloor>; d = x - of_int f
      in if d < 1 / 2 then f
         else if 1 / 2 < d then f + 1
         else if even f then f else f + 1)"

text \<open>
  True division of numpy floats: a division by zero does not raise, it gives an
  infinity of the sign of the numerator, or \<open>nan\<close> for \<open>0 / 0\<close>.
\<close>

definition np_fdiv :: "real \<Rightarrow> real \<Rightarrow> npfloat" where
  "np_fdiv x y =
     (if y = 0 then (if 0 < x then PInf else if x < 0 then NInf else NaN)
      else Fin (x / y))"

text \<open>Indexing an array with one index, and with an array of indices.\<close>

definition np_index :: "'a list \<Rightarrow> nat \<Rightarrow> error + 'a" where
  "np_index xs i = (if i < length xs then Inr (xs ! i) else Inl IndexError)"

definition np_take :: "'a list \<Rightarrow> nat list \<Rightarrow> error + 'a list" where
  "np_take xs idx =
     (if list_all (\<lambda>i. i < length xs) idx then Inr (map (\<lambda>i. xs ! i) idx)
      else Inl IndexError)"

text \<open>
  Modelled from the spec: \<open>scipy.signal.argrelmax\<close>, which \<open>detect\<close> calls as
  \<open>argrelmax(bins, mode='wrap')[0]\<close>, is not among the sources. Section 4.3 of the
  specification has the peaks as the indices of the local maxima under wrap-around
  boundary semantics, the first and the last element being compared with their one
  neighbour and with each other, as if the array were circular, and no peak in a
  histogram of fewer than two bins. The model returns, in increasing order, the indices
  whose value is strictly greater than the values of both neighbours, the neighbours
  being taken modulo the length (the comparison of the default order 1).
\<close>

definition argrelmax_wrap :: "real list \<Rightarrow> nat list" where
  "argrelmax_wrap data =
     (let n = length data
      in filter (\<lambda>i. data ! i > data ! ((i + 1) mod n) \<and>
                      data ! i > data ! ((i + n - 1) mod n)) [0..<n])"

text \<open>
  \<open>np.argsort\<close>: the indices in ascending order of their values. Equal values keep their
  order (what numpy does on the short arrays of peaks; the order of ties of its
  default sort is not fixed in general).
\<close>

definition argsort :: "real list \<Rightarrow> nat list" where
  "argsort xs = sort_key (\<lambda>i. xs ! i) [0..<length xs]"

text \<open>\<open>np.argmax\<close> of a non-empty array: the first index of the greatest value.\<close>

fun argmax_from :: "nat \<Rightarrow> nat \<Rightarrow> nat \<Rightarrow> nat list \<Rightarrow> nat" where
  "argmax_from best bi i [] = bi"
| "argmax_from best bi i (x # xs) =
     (if best < x then argmax_from x i (Suc i) xs else argmax_from best bi (Suc i) xs)"

definition argmax :: "nat list \<Rightarrow> nat" where
  "argmax xs = (case xs of [] \<Rightarrow> 0 | x # xs' \<Rightarrow> argmax_from x 0 1 xs')"

subsection \<open>Grouping of the tempi\<close>

text \<open>
  One entry \<open>c[i][j] = t[j] / t[i]\<close> of the matrix of tempo ratios is flagged when
  \<open>np.round(abs(log(c)) / grouping_dev) * grouping_dev % 1 == 0\<close> for the logarithm to
  the given base. The logarithm of anything but a positive finite ratio is infinite or
  \<open>nan\<close>, and the comparison is then false.
\<close>

definition related :: "real \<Rightarrow> real \<Rightarrow> npfloat \<Rightarrow> npfloat \<Rightarrow> bool" where
  "related base grouping_dev ti tj =
     (case (ti, tj) of
        (Fin a, Fin b) \<Rightarrow>
          a \<noteq> 0 \<and> 0 < b / a \<and>
          (let r = of_int (np_round (\<bar>log base (b / a)\<bar> / grouping_dev)) * grouping_dev
           in r = of_int \<lfloor>r\<rfloor>)
      | _ \<Rightarrow> False)"

definition relation_matrix :: "real \<Rightarrow> real \<Rightarrow> npfloat list \<Rightarrow> bool list list" where
  "relation_matrix base grouping_dev t =
     map (\<lambda>ti. map (\<lambda>tj. related base grouping_dev ti tj) t) t"

text \<open>
  \<open>np.sum(double_c, axis=1)\<close> counts the flags of each row; the winning row of
  \<open>bins[sorted_peaks][np.newaxis, :] * double_c\<close> is the one at the \<open>argmax\<close> of the counts.
\<close>

definition row_counts :: "bool list list \<Rightarrow> nat list" where
  "row_counts m = map (\<lambda>row. length (filter (\<lambda>f. f) row)) m"

definition winning_row :: "real list \<Rightarrow> bool list list \<Rightarrow> real list" where
  "winning_row heights m =
     map2 (\<lambda>h f. if f then h else 0) heights (m ! argmax (row_counts m))"

definition regroup ::
  "real list \<Rightarrow> npfloat list \<Rightarrow> nat list \<Rightarrow> real \<Rightarrow> error + nat list" where
  "regroup bins tempi sorted_peaks grouping_dev =
     (case np_take tempi sorted_peaks of
        Inl e \<Rightarrow> Inl e
      | Inr t \<Rightarrow>
          (let heights = map (\<lambda>p. bins ! p) sorted_peaks;
               double_tempi = winning_row heights (relation_matrix 2 grouping_dev t);
               triple_tempi = winning_row heights (relation_matrix 3 grouping_dev t);
               strengths = map2 max double_tempi triple_tempi
           in Inr (map (\<lambda>i. sorted_peaks ! i) (rev (argsort strengths)))))"

subsection \<open>Tempo.detect\<close>

text \<open>The part of \<open>detect\<close> after the histogram: peaks, ranking and the result.\<close>

definition sort_peaks :: "real list \<Rightarrow> nat list \<Rightarrow> nat list" where
  "sort_peaks bins peaks =
     map (\<lambda>i. peaks ! i) (rev (argsort (map (\<lambda>p. bins ! p) peaks)))"

definition rank_peaks ::
  "real list \<Rightarrow> npfloat list \<Rightarrow> nat list \<Rightarrow> real \<Rightarrow> error + nat list" where
  "rank_peaks bins tempi peaks grouping_dev =
     (let sorted_peaks = sort_peaks bins peaks
      in if grouping_dev \<noteq> 0 then regroup bins tempi sorted_peaks grouping_dev
         else Inr sorted_peaks)"

definition report ::
  "real \<Rightarrow> histogram \<Rightarrow> real \<Rightarrow> error + npfloat \<times> npfloat \<times> npfloat" where
  "report fps histogram grouping_dev =
     (let bins = fst histogram;
          tempi = map (\<lambda>tau. np_fdiv (60 * fps) (of_int tau)) (snd histogram);
          peaks = argrelmax_wrap bins
      in if length peaks = 0 then Inr (NO_TEMPO, NO_TEMPO, Fin 0)
         else if length peaks = 1 then
           (case np_index tempi (peaks ! 0) of
              Inl e \<Rightarrow> Inl e
            | Inr t \<Rightarrow> Inr (t, NO_TEMPO, Fin 1))
         else
           (case rank_peaks bins tempi peaks grouping_dev of
              Inl e \<Rightarrow> Inl e
            | Inr sorted_peaks \<Rightarrow>
                (case np_take tempi (take 2 sorted_peaks) of
                   Inl e \<Rightarrow> Inl e
                 | Inr t \<Rightarrow>
                     Inr (t ! 0, t ! 1,
                          np_fdiv (bins ! (sorted_peaks ! 0))
                            (sum_list (map (\<lambda>p. bins ! p) (take 2 sorted_peaks)))))))"

text \<open>
  \<open>detect\<close> itself. The frame rate and the arguments are Python floats, so the two
  divisions by a tempo bound raise \<open>ZeroDivisionError\<close> for a bound of zero.
\<close>

definition detect ::
  "real list \<Rightarrow> real \<Rightarrow> real \<Rightarrow> smooth \<Rightarrow> real \<Rightarrow> real \<Rightarrow> real \<Rightarrow>
   error + npfloat \<times> npfloat \<times> npfloat" where
  "detect activations fps act_smooth hist_smooth min_bpm max_bpm grouping_dev =
     (let act_smooth' = py_round (fps * act_smooth)
      in if max_bpm = 0 \<or> min_bpm = 0 then Inl ZeroDivisionError
         else
           (let min_tau = \<lfloor>60 * fps / max_bpm\<rfloor>;
                max_tau = \<lceil>60 * fps / min_bpm\<rceil>
            in case interval_histogram activations (KernelSize act_smooth') min_tau (Some max_tau) of
                 Inl e \<Rightarrow> Inl e
               | Inr histogram \<Rightarrow>
                   (case truthy hist_smooth of
                      Inl e \<Rightarrow> Inl e
                    | Inr b \<Rightarrow>
                        (case (if b then smooth_histogram histogram hist_smooth
                               else Inr histogram) of
                           Inl e \<Rightarrow> Inl e
                         | Inr histogram' \<Rightarrow> report fps histogram' grouping_dev))))"

subsection \<open>Reference notions for the properties\<close>

text \<open>
  The energy of the signal at a positive lag, written with indices: the sum of the
  absolute values of the products of each entry with the entry \<open>\<tau>\<close> positions later.
\<close>

definition lag_energy :: "real list \<Rightarrow> nat \<Rightarrow> real" where
  "lag_energy a \<tau> = (\<Sum>k\<leftarrow>[0..<length a - \<tau>]. \<bar>a ! (k + \<tau>) * a ! k\<bar>)"

text \<open>
  The total flagged strength of a row of a relation matrix: the sum of the bin heights of
  the flagged peaks of the row, over all peaks, and over the peaks other than the one of
  the row itself.
\<close>

definition flagged_strength :: "real list \<Rightarrow> bool list list \<Rightarrow> nat \<Rightarrow> real" where
  "flagged_strength heights m i =
     (\<Sum>j\<leftarrow>[0..<length heights]. if m ! i ! j then heights ! j else 0)"

definition flagged_strength_others :: "real list \<Rightarrow> bool list list \<Rightarrow> nat \<Rightarrow> real" where
  "flagged_strength_others heights m i =
     (\<Sum>j\<leftarrow>[0..<length heights]. if j \<noteq> i \<and> m ! i ! j then heights ! j else 0)"

section \<open>Properties\<close>

subsection \<open>Smoothing\<close>

lemma length_hamming: "length (hamming M) = nat M"
  by (simp add: hamming_def)

lemma length_conv_full: "length (conv_full a v) = length a + length v - 1"
  by (simp add: conv_full_def)

lemma same_window:
  "0 < (a::nat) \<Longrightarrow> 0 < b \<Longrightarrow> max a b \<le> a + b - 1 - (min a b - 1) div 2"
  by arith

lemma convolve_same_length:
  "convolve_same a v = Inr out \<Longrightarrow> length out = max (length a) (length v)"
proof -
  assume h: "convolve_same a v = Inr out"
  then have ne: "0 < length a" "0 < length v"
    by (auto simp: convolve_same_def split: if_splits)
  from h have "length out =
      min (length a + length v - 1 - (min (length a) (length v) - 1) div 2)
          (max (length a) (length v))"
    by (auto simp: convolve_same_def length_conv_full split: if_splits)
  with same_window[OF ne] show ?thesis by simp
qed

lemma cos_pi_3_2: "cos (pi * 3 / 2) = 0"
  using cos_3over2_pi by (simp add: mult.commute)

lemma hamming_5: "hamming 5 = [0.08, 0.54, 1, 0.54, 0.08]"
  by (simp add: hamming_def upt_rec cos_pi_3_2)

lemma smooth_signal_usable:
  "smooth = KernelSize n \<and> 1 < n \<or> smooth = KernelWeights w \<and> 1 < length w \<Longrightarrow>
   signal \<noteq> [] \<Longrightarrow> \<exists>out. smooth_signal signal smooth = Inr out"
  by (auto simp: smooth_signal_def convolve_same_def hamming_def)

text \<open>
  C4 (as the code has it). \<open>smooth_signal\<close> with an integer kernel size of at most 1
  builds no kernel and raises \<open>ValueError\<close>, whatever the signal: it is not the
  identity.
\<close>

theorem smooth_signal_small_size_raises:
  "n \<le> 1 \<Longrightarrow> smooth_signal signal (KernelSize n) = Inl ValueError"
  by (simp add: smooth_signal_def)

theorem smooth_signal_small_size_raises_witness:
  "(0::int) \<le> 1 \<and> smooth_signal [1, 2, 3] (KernelSize 0) = Inl ValueError"
  using smooth_signal_small_size_raises [of 0 "[1, 2, 3]"] by simp

text \<open>
  C4 as the specification states it fails: smoothing \<open>[1, 2, 3]\<close> with the sizes 0 and 1
  does not return \<open>[1, 2, 3]\<close>.
\<close>

theorem smooth_signal_small_size_not_identity:
  "smooth_signal [1, 2, 3] (KernelSize 0) \<noteq> Inr [1, 2, 3] \<and>
   smooth_signal [1, 2, 3] (KernelSize 1) \<noteq> Inr [1, 2, 3]"
  by (simp add: smooth_signal_def)

text \<open>
  Whenever \<open>smooth_signal\<close> returns, its output has the length of the longer of the
  signal and the kernel; it has the length of the signal exactly when the kernel is not
  longer than the signal.
\<close>

lemma smooth_signal_length:
  "smooth_signal signal smooth = Inr out \<Longrightarrow>
   length out = max (length signal)
     (case smooth of KernelSize n \<Rightarrow> nat n | KernelWeights w \<Rightarrow> length w | SNone \<Rightarrow> 0)"
  by (cases smooth)
     (auto simp: smooth_signal_def length_hamming dest!: convolve_same_length split: if_splits)

text \<open>
  C6 at a failing input. A signal of three entries smoothed with the kernel size 5 comes
  back with five entries: \<open>np.convolve(..., 'same')\<close> returns the length of the longer
  argument, so the output is longer than the signal whenever the kernel is.
\<close>

theorem smooth_signal_longer_kernel:
  "smooth_signal [0, 0, 1] (KernelSize 5) = Inr [0, 0.08, 0.54, 1, 0.54]"
  by (simp add: smooth_signal_def hamming_5 convolve_same_def conv_full_def upt_rec)

text \<open>
  C9. \<open>smooth_histogram\<close> returns the lags it was given: whenever it returns a histogram,
  the second component is the one of its argument, and it does return one for every
  usable kernel (an integer size above 1, or weights of length above 1) and every
  non-empty sequence of bins.
\<close>

theorem smooth_histogram_keeps_lags:
  "(smooth_histogram (bins, lags) smooth = Inr h' \<longrightarrow> snd h' = lags) \<and>
   ((smooth = KernelSize n \<and> 1 < n \<or> smooth = KernelWeights w \<and> 1 < length w) \<and>
    bins \<noteq> [] \<longrightarrow>
      (\<exists>bins'. smooth_histogram (bins, lags) smooth = Inr (bins', lags)))"
proof (intro conjI impI)
  assume "smooth_histogram (bins, lags) smooth = Inr h'"
  then show "snd h' = lags"
    by (auto simp: smooth_histogram_def split: sum.splits)
next
  assume "(smooth = KernelSize n \<and> 1 < n \<or> smooth = KernelWeights w \<and> 1 < length w) \<and>
          bins \<noteq> []"
  then obtain out where "smooth_signal bins smooth = Inr out"
    using smooth_signal_usable[of smooth n w bins] by blast
  then show "\<exists>bins'. smooth_histogram (bins, lags) smooth = Inr (bins', lags)"
    by (simp add: smooth_histogram_def)
qed

theorem smooth_histogram_keeps_lags_witness:
  "smooth_histogram ([1, 2, 3], [4, 5, 6]) (KernelWeights [0, 1]) = Inr ([0, 1, 2], [4, 5, 6]) \<and>
   snd ([0, 1, 2 :: real], [4, 5, 6 :: int]) = [4, 5, 6] \<and>
   (\<exists>bins'. smooth_histogram ([1, 2, 3], [4, 5, 6]) (KernelWeights [0, 1]) = Inr (bins', [4, 5, 6]))"
  using smooth_histogram_keeps_lags
    [of "[1, 2, 3]" "[4, 5, 6]" "KernelWeights [0, 1]" "([0, 1, 2], [4, 5, 6])" 0 "[0, 1]"]
  by (simp add: smooth_histogram_def smooth_signal_def convolve_same_def conv_full_def upt_rec)

subsection \<open>The interval histogram\<close>

lemma slices_product:
  assumes "1 \<le> tau"
  shows "np_mul (slice_from a tau) (slice_upto a (- tau)) =
         Inr (map (\<lambda>k. a ! (k + nat tau) * a ! k) [0..<length a - nat tau])"
proof -
  have l: "length (drop (nat tau) a) = length (take (length a - nat tau) a)" by simp
  have "map2 (*) (drop (nat tau) a) (take (length a - nat tau) a) =
        map (\<lambda>k. a ! (k + nat tau) * a ! k) [0..<length a - nat tau]"
    by (rule nth_equalityI) (auto simp: add.commute)
  with assms l show ?thesis
    by (simp add: np_mul_def slice_from_def slice_upto_def)
qed

lemma hist_bins_positive:
  "\<forall>tau \<in> set taus. 1 \<le> tau \<Longrightarrow>
   hist_bins a taus = Inr (map (\<lambda>tau. lag_energy a (nat tau)) taus)"
proof (induction taus)
  case Nil
  then show ?case by simp
next
  case (Cons tau taus)
  then show ?case
    by (simp add: slices_product lag_energy_def comp_def)
qed

lemma hist_bins_returned:
  "hist_bins a taus = Inr bins \<Longrightarrow>
   length bins = length taus \<and>
   (\<forall>i<length taus. \<exists>p. np_mul (slice_from a (taus ! i)) (slice_upto a (- (taus ! i))) = Inr p \<and>
                          bins ! i = sum_list (map abs p))"
proof (induction taus arbitrary: bins)
  case Nil
  then show ?case by simp
next
  case (Cons tau taus)
  from Cons.prems obtain p bs where
    p: "np_mul (slice_from a tau) (slice_upto a (- tau)) = Inr p" and
    bs: "hist_bins a taus = Inr bs" and
    b: "bins = sum_list (map abs p) # bs"
    by (auto split: sum.splits)
  from Cons.IH[OF bs] have ih: "length bs = length taus"
    "\<And>i. i < length taus \<Longrightarrow> \<exists>p. np_mul (slice_from a (taus ! i)) (slice_upto a (- (taus ! i))) = Inr p \<and>
                          bs ! i = sum_list (map abs p)"
    by simp_all
  show ?case
  proof (intro conjI allI impI)
    show "length bins = length (tau # taus)" using b ih(1) by simp
    fix i assume "i < length (tau # taus)"
    then show "\<exists>q. np_mul (slice_from a ((tau # taus) ! i)) (slice_upto a (- ((tau # taus) ! i))) = Inr q \<and>
                 bins ! i = sum_list (map abs q)"
      using p b ih(2) by (cases i) simp_all
  qed
qed

lemma interval_histogram_returned:
  assumes "interval_histogram activations smooth min_tau max_tau = Inr (bins, lags)"
  shows "\<exists>b act'. truthy smooth = Inr b \<and>
           (if b then smooth_signal activations smooth else Inr activations) = Inr act' \<and>
           lags = [min_tau..(case max_tau of None \<Rightarrow> int (length act') - min_tau | Some m \<Rightarrow> m) - 1] \<and>
           length bins = length lags \<and>
           (\<forall>i<length lags. lags ! i = min_tau + int i \<and>
              (\<exists>p. np_mul (slice_from act' (lags ! i)) (slice_upto act' (- (lags ! i))) = Inr p \<and>
                   bins ! i = sum_list (map abs p)))"
proof -
  from assms obtain b act' where
    b: "truthy smooth = Inr b" and
    a: "(if b then smooth_signal activations smooth else Inr activations) = Inr act'" and
    h: "hist_bins act' [min_tau..(case max_tau of None \<Rightarrow> int (length act') - min_tau | Some m \<Rightarrow> m) - 1] = Inr bins" and
    l: "lags = [min_tau..(case max_tau of None \<Rightarrow> int (length act') - min_tau | Some m \<Rightarrow> m) - 1]"
    unfolding interval_histogram_def Let_def by (auto split: sum.splits)
  note hb = hist_bins_returned[OF h, folded l]
  have nth: "\<forall>i<length lags. lags ! i = min_tau + int i"
    unfolding l by simp
  show ?thesis
    using b a l hb nth by blast
qed

lemma interval_histogram_positive_lags:
  assumes "1 \<le> min_tau"
    and "truthy smooth = Inr b"
    and "(if b then smooth_signal activations smooth else Inr activations) = Inr act'"
    and "hi = (case max_tau of None \<Rightarrow> int (length act') - min_tau | Some m \<Rightarrow> m)"
  shows "\<exists>bins lags.
           interval_histogram activations smooth min_tau max_tau = Inr (bins, lags) \<and>
           length lags = nat (hi - min_tau) \<and> length bins = length lags \<and>
           (\<forall>i<length lags. lags ! i = min_tau + int i \<and>
                             bins ! i = lag_energy act' (nat (min_tau + int i)))"
proof -
  let ?taus = "[min_tau..hi - 1]"
  let ?bins = "map (\<lambda>tau. lag_energy act' (nat tau)) ?taus"
  have pos: "\<forall>tau \<in> set ?taus. 1 \<le> tau" using assms(1) by auto
  have r: "interval_histogram activations smooth min_tau max_tau = Inr (?bins, ?taus)"
    using assms(2,3,4) hist_bins_positive[OF pos, of act']
    by (simp add: interval_histogram_def Let_def)
  have len: "length ?taus = nat (hi - min_tau)" by simp
  have nth: "\<And>i. i < length ?taus \<Longrightarrow> ?taus ! i = min_tau + int i"
    by simp
  have bin: "\<And>i. i < length ?taus \<Longrightarrow> ?bins ! i = lag_energy act' (nat (min_tau + int i))"
    using nth by (simp only: nth_map)
  show ?thesis
  proof (intro exI conjI)
    show "interval_histogram activations smooth min_tau max_tau = Inr (?bins, ?taus)"
      by (rule r)
    show "length ?taus = nat (hi - min_tau)" by (rule len)
    show "length ?bins = length ?taus" by simp
    show "\<forall>i<length ?taus. ?taus ! i = min_tau + int i \<and>
            ?bins ! i = lag_energy act' (nat (min_tau + int i))"
      using nth bin by blast
  qed
qed

text \<open>
  C2. Whenever \<open>interval_histogram\<close> returns a histogram, its lags are the integers of
  \<open>[min_tau, hi)\<close> in increasing order, \<open>lags[i] = min_tau + i\<close>, where \<open>hi\<close> is \<open>max_tau\<close>,
  or \<open>len(act') - min_tau\<close> when \<open>max_tau\<close> is not given, \<open>act'\<close> being the signal that is
  correlated (the activations, smoothed when \<open>smooth\<close> is true); there is one bin for
  each lag, and the bin of the lag \<open>\<tau>\<close> is the sum of the absolute values of
  \<open>act'[\<tau>:] * act'[0:-\<tau>]\<close>. For a smallest lag of at least 1 it does return once the
  optional smoothing has succeeded, and the bin of \<open>\<tau>\<close> is the energy of \<open>act'\<close> at the
  lag \<open>\<tau>\<close>: the sum of \<open>|act'[k + \<tau>] * act'[k]|\<close> over \<open>k < len(act') - \<tau>\<close>.
\<close>

theorem interval_histogram_bins:
  "(interval_histogram activations smooth min_tau max_tau = Inr (bins, lags) \<longrightarrow>
      (\<exists>b act'. truthy smooth = Inr b \<and>
         (if b then smooth_signal activations smooth else Inr activations) = Inr act' \<and>
         lags = [min_tau..(case max_tau of None \<Rightarrow> int (length act') - min_tau
                                          | Some m \<Rightarrow> m) - 1] \<and>
         length bins = length lags \<and>
         (\<forall>i<length lags. lags ! i = min_tau + int i \<and>
            (\<exists>p. np_mul (slice_from act' (lags ! i)) (slice_upto act' (- (lags ! i))) = Inr p \<and>
                 bins ! i = sum_list (map abs p))))) \<and>
   (1 \<le> min_tau \<and> truthy smooth = Inr c \<and>
    (if c then smooth_signal activations smooth else Inr activations) = Inr a \<longrightarrow>
      (\<exists>bins lags.
         interval_histogram activations smooth min_tau max_tau = Inr (bins, lags) \<and>
         length lags = nat ((case max_tau of None \<Rightarrow> int (length a) - min_tau
                                            | Some m \<Rightarrow> m) - min_tau) \<and>
         length bins = length lags \<and>
         (\<forall>i<length lags. lags ! i = min_tau + int i \<and>
                           bins ! i = lag_energy a (nat (min_tau + int i)))))"
proof (intro conjI impI)
  assume "interval_histogram activations smooth min_tau max_tau = Inr (bins, lags)"
  then show "\<exists>b act'. truthy smooth = Inr b \<and>
         (if b then smooth_signal activations smooth else Inr activations) = Inr act' \<and>
         lags = [min_tau..(case max_tau of None \<Rightarrow> int (length act') - min_tau
                                          | Some m \<Rightarrow> m) - 1] \<and>
         length bins = length lags \<and>
         (\<forall>i<length lags. lags ! i = min_tau + int i \<and>
            (\<exists>p. np_mul (slice_from act' (lags ! i)) (slice_upto act' (- (lags ! i))) = Inr p \<and>
                 bins ! i = sum_list (map abs p)))"
    by (rule interval_histogram_returned)
next
  assume "1 \<le> min_tau \<and> truthy smooth = Inr c \<and>
    (if c then smooth_signal activations smooth else Inr activations) = Inr a"
  then show "\<exists>bins lags.
         interval_histogram activations smooth min_tau max_tau = Inr (bins, lags) \<and>
         length lags = nat ((case max_tau of None \<Rightarrow> int (length a) - min_tau
                                            | Some m \<Rightarrow> m) - min_tau) \<and>
         length bins = length lags \<and>
         (\<forall>i<length lags. lags ! i = min_tau + int i \<and>
                           bins ! i = lag_energy a (nat (min_tau + int i)))"
    using interval_histogram_positive_lags[of min_tau smooth c activations a _ max_tau]
    by blast
qed

theorem interval_histogram_bins_witness:
  "interval_histogram [1, 0, 1, 0, 1] SNone 1 None = Inr ([0, 2, 0], [1, 2, 3]) \<and>
   (1::int) \<le> 1 \<and> truthy SNone = Inr False \<and>
   (\<exists>bins lags.
      interval_histogram [1, 0, 1, 0, 1] SNone 1 None = Inr (bins, lags) \<and>
      length lags = 3 \<and> length bins = length lags \<and>
      (\<forall>i<length lags. lags ! i = 1 + int i \<and>
                        bins ! i = lag_energy [1, 0, 1, 0, 1] (nat (1 + int i))))"
proof -
  have r: "interval_histogram [1, 0, 1, 0, 1] SNone 1 None = Inr ([0, 2, 0], [1, 2, 3])"
    by (simp add: interval_histogram_def truthy_def np_mul_def slice_from_def slice_upto_def
          Let_def upto_rec1)
  show ?thesis
    using r interval_histogram_bins
      [of "[1, 0, 1, 0, 1]" SNone 1 None "[0, 2, 0]" "[1, 2, 3]" False "[1, 0, 1, 0, 1]"]
    by (simp add: truthy_def)
qed

subsection \<open>Peaks\<close>

lemma filter_upt_single:
  assumes "k < n" and "P k" and "\<And>i. i < n \<Longrightarrow> i \<noteq> k \<Longrightarrow> \<not> P i"
  shows "filter P [0..<n] = [k]"
proof -
  have "[0..<n] = [0..<k] @ [k..<n]"
    using assms(1) upt_add_eq_append[of 0 k "n - k"] by simp
  also have "[k..<n] = k # [Suc k..<n]"
    using assms(1) by (rule upt_conv_Cons)
  finally have split: "[0..<n] = [0..<k] @ k # [Suc k..<n]" .
  have a: "filter P [0..<k] = []"
    using assms(1,3) by (auto simp: filter_empty_conv)
  have b: "filter P [Suc k..<n] = []"
    using assms(3) by (auto simp: filter_empty_conv)
  show ?thesis
    by (simp only: split filter_append filter.simps a b assms(2) if_True append_Nil)
qed

lemma wrap_left: "0 < i \<Longrightarrow> i < n \<Longrightarrow> (i + n - 1) mod n = i - (1::nat)"
proof -
  assume a: "0 < i" "i < n"
  then have "i + n - 1 = (i - 1) + n" by arith
  then have "(i + n - 1) mod n = ((i - 1) + n) mod n" by (rule arg_cong)
  also have "\<dots> = (i - 1) mod n" by (rule mod_add_self2)
  also have "\<dots> = i - 1" using a by (intro mod_less) arith
  finally show ?thesis .
qed

lemma argrelmax_increasing:
  assumes "sorted_wrt (<) bins" and "2 \<le> length bins"
  shows "argrelmax_wrap bins = [length bins - 1]"
proof -
  let ?n = "length bins"
  have lt: "\<And>i j. i < j \<Longrightarrow> j < ?n \<Longrightarrow> bins ! i < bins ! j"
    using assms(1) by (simp add: sorted_wrt_iff_nth_less)
  let ?P = "\<lambda>i. bins ! i > bins ! ((i + 1) mod ?n) \<and> bins ! i > bins ! ((i + ?n - 1) mod ?n)"
  have "filter ?P [0..<?n] = [?n - 1]"
  proof (rule filter_upt_single)
    show "?n - 1 < ?n" using assms(2) by simp
    have "?n - 1 + 1 = ?n" using assms(2) by simp
    then have r: "(?n - 1 + 1) mod ?n = 0" by simp
    have l: "(?n - 1 + ?n - 1) mod ?n = ?n - 2"
      using wrap_left[of "?n - 1" ?n] assms(2) by (simp add: numeral_2_eq_2)
    have "bins ! 0 < bins ! (?n - 1)" "bins ! (?n - 2) < bins ! (?n - 1)"
      using assms(2) by (auto intro!: lt)
    then show "?P (?n - 1)"
      unfolding r l by simp
  next
    fix i assume i: "i < ?n" "i \<noteq> ?n - 1"
    then have "i + 1 < ?n" by simp
    then have "(i + 1) mod ?n = i + 1" "bins ! i < bins ! (i + 1)"
      by (simp_all add: lt)
    then show "\<not> ?P i" by simp
  qed
  then show ?thesis by (simp add: argrelmax_wrap_def Let_def)
qed

lemma argrelmax_decreasing:
  assumes "sorted_wrt (>) bins" and "2 \<le> length bins"
  shows "argrelmax_wrap bins = [0]"
proof -
  let ?n = "length bins"
  have gt: "\<And>i j. i < j \<Longrightarrow> j < ?n \<Longrightarrow> bins ! j < bins ! i"
    using assms(1) by (simp add: sorted_wrt_iff_nth_less)
  let ?P = "\<lambda>i. bins ! i > bins ! ((i + 1) mod ?n) \<and> bins ! i > bins ! ((i + ?n - 1) mod ?n)"
  have "filter ?P [0..<?n] = [0]"
  proof (rule filter_upt_single)
    show "0 < ?n" using assms(2) by (cases bins) simp_all
    have r: "(0 + 1) mod ?n = 1" using assms(2) by simp
    have l: "(0 + ?n - 1) mod ?n = ?n - 1" using assms(2) by simp
    have "bins ! 1 < bins ! 0" "bins ! (?n - 1) < bins ! 0"
      using assms(2) by (auto intro!: gt)
    then show "?P 0"
      unfolding r l by simp
  next
    fix i assume i: "i < ?n" "i \<noteq> 0"
    then have "(i + ?n - 1) mod ?n = i - 1" by (intro wrap_left) simp_all
    moreover have "bins ! i < bins ! (i - 1)" using i by (auto intro!: gt)
    ultimately show "\<not> ?P i" by simp
  qed
  then show ?thesis by (simp add: argrelmax_wrap_def Let_def)
qed

lemma argrelmax_global_max:
  assumes "k < length bins" and "2 \<le> length bins"
    and "\<forall>j<length bins. j \<noteq> k \<longrightarrow> bins ! j < bins ! k"
  shows "k \<in> set (argrelmax_wrap bins)"
proof -
  let ?n = "length bins"
  have r: "(k + 1) mod ?n < ?n" "(k + 1) mod ?n \<noteq> k"
    using assms(1,2) by (auto simp: mod_Suc)
  have l: "(k + ?n - 1) mod ?n < ?n" "(k + ?n - 1) mod ?n \<noteq> k"
  proof -
    have "0 < ?n" using assms(1) by arith
    then show "(k + ?n - 1) mod ?n < ?n" by (rule mod_less_divisor)
    show "(k + ?n - 1) mod ?n \<noteq> k"
    proof (cases "k = 0")
      case True
      then show ?thesis using assms(2) by simp
    next
      case False
      then show ?thesis using wrap_left[of k ?n] assms(1) by simp
    qed
  qed
  from r l assms(3) have "bins ! ((k + 1) mod ?n) < bins ! k" "bins ! ((k + ?n - 1) mod ?n) < bins ! k"
    by blast+
  with assms(1) show ?thesis
    by (simp add: argrelmax_wrap_def Let_def)
qed

lemma argrelmax_unimodal:
  assumes "0 < k" and "k + 1 < length bins"
    and up: "\<forall>j<k. bins ! j < bins ! (j + 1)"
    and down: "\<forall>j. k \<le> j \<and> j + 1 < length bins \<longrightarrow> bins ! (j + 1) < bins ! j"
  shows "argrelmax_wrap bins = [k]"
proof -
  let ?n = "length bins"
  let ?P = "\<lambda>i. bins ! i > bins ! ((i + 1) mod ?n) \<and> bins ! i > bins ! ((i + ?n - 1) mod ?n)"
  have "filter ?P [0..<?n] = [k]"
  proof (rule filter_upt_single)
    show "k < ?n" using assms(2) by simp
    have r: "(k + 1) mod ?n = k + 1" using assms(2) by simp
    have l: "(k + ?n - 1) mod ?n = k - 1" using assms(1,2) by (intro wrap_left) simp_all
    have "bins ! (k + 1) < bins ! k" using down assms(2) by simp
    moreover have "bins ! (k - 1) < bins ! k" using up[rule_format, of "k - 1"] assms(1) by simp
    ultimately show "?P k" unfolding r l by simp
  next
    fix i assume i: "i < ?n" "i \<noteq> k"
    show "\<not> ?P i"
    proof (cases "i < k")
      case True
      then have "(i + 1) mod ?n = i + 1" using assms(2) by simp
      moreover have "bins ! i < bins ! (i + 1)" using up True by simp
      ultimately show ?thesis by simp
    next
      case False
      with i have k: "k \<le> i - 1" "0 < i" "i - 1 + 1 = i" by simp_all
      then have "(i + ?n - 1) mod ?n = i - 1" using i by (intro wrap_left) simp_all
      moreover have "bins ! i < bins ! (i - 1)"
        using down[rule_format, of "i - 1"] k i by simp
      ultimately show ?thesis by simp
    qed
  qed
  then show ?thesis by (simp add: argrelmax_wrap_def Let_def)
qed

lemma argrelmax_wrap_member:
  "i \<in> set (argrelmax_wrap bins) \<longleftrightarrow>
   i < length bins \<and> bins ! ((i + 1) mod length bins) < bins ! i \<and>
   bins ! ((i + length bins - 1) mod length bins) < bins ! i"
  by (auto simp: argrelmax_wrap_def Let_def)

lemma argrelmax_wrap_increasing_order: "sorted_wrt (<) (argrelmax_wrap bins)"
  by (simp add: argrelmax_wrap_def Let_def sorted_wrt_filter)

text \<open>
  C7 (as the model of the peak finder has it). Peak detection uses wrap-around boundary
  semantics: the peaks are, in increasing order, exactly the indices whose value is
  strictly greater than the values at both cyclic neighbours, the neighbours being taken
  modulo the length, so that every strict local maximum is a peak. A strictly
  increasing histogram of at least three bins has its one peak at the last index and a
  strictly decreasing one at the first index. A single global maximum at an interior
  index is always among the peaks; it is the only peak when the histogram rises
  strictly up to it and falls strictly after it.
\<close>

theorem argrelmax_wrap_peaks:
  "(\<forall>i. i \<in> set (argrelmax_wrap bins) \<longleftrightarrow>
        i < length bins \<and> bins ! ((i + 1) mod length bins) < bins ! i \<and>
        bins ! ((i + length bins - 1) mod length bins) < bins ! i) \<and>
   sorted_wrt (<) (argrelmax_wrap bins) \<and>
   (3 \<le> length bins \<and> sorted_wrt (<) bins \<longrightarrow> argrelmax_wrap bins = [length bins - 1]) \<and>
   (3 \<le> length bins \<and> sorted_wrt (>) bins \<longrightarrow> argrelmax_wrap bins = [0]) \<and>
   (0 < k \<and> k + 1 < length bins \<and> (\<forall>j<length bins. j \<noteq> k \<longrightarrow> bins ! j < bins ! k) \<longrightarrow>
      k \<in> set (argrelmax_wrap bins)) \<and>
   (0 < k \<and> k + 1 < length bins \<and> (\<forall>j<k. bins ! j < bins ! (j + 1)) \<and>
    (\<forall>j. k \<le> j \<and> j + 1 < length bins \<longrightarrow> bins ! (j + 1) < bins ! j) \<longrightarrow>
      argrelmax_wrap bins = [k])"
proof (intro conjI impI allI)
  fix i
  show "i \<in> set (argrelmax_wrap bins) \<longleftrightarrow>
        i < length bins \<and> bins ! ((i + 1) mod length bins) < bins ! i \<and>
        bins ! ((i + length bins - 1) mod length bins) < bins ! i"
    by (rule argrelmax_wrap_member)
next
  show "sorted_wrt (<) (argrelmax_wrap bins)"
    by (rule argrelmax_wrap_increasing_order)
next
  assume "3 \<le> length bins \<and> sorted_wrt (<) bins"
  then show "argrelmax_wrap bins = [length bins - 1]"
    by (intro argrelmax_increasing) simp_all
next
  assume "3 \<le> length bins \<and> sorted_wrt (>) bins"
  then show "argrelmax_wrap bins = [0]"
    by (intro argrelmax_decreasing) simp_all
next
  assume "0 < k \<and> k + 1 < length bins \<and> (\<forall>j<length bins. j \<noteq> k \<longrightarrow> bins ! j < bins ! k)"
  then show "k \<in> set (argrelmax_wrap bins)"
    by (intro argrelmax_global_max) simp_all
next
  assume "0 < k \<and> k + 1 < length bins \<and> (\<forall>j<k. bins ! j < bins ! (j + 1)) \<and>
    (\<forall>j. k \<le> j \<and> j + 1 < length bins \<longrightarrow> bins ! (j + 1) < bins ! j)"
  then show "argrelmax_wrap bins = [k]"
    by (intro argrelmax_unimodal) simp_all
qed

theorem argrelmax_wrap_peaks_witness:
  "sorted_wrt (<) [1, 2, 3 :: real] \<and> argrelmax_wrap [1, 2, 3] = [2] \<and>
   sorted_wrt (>) [3, 2, 1 :: real] \<and> argrelmax_wrap [3, 2, 1] = [0] \<and>
   1 \<in> set (argrelmax_wrap [0, 5, 0, 3, 0]) \<and> 3 \<in> set (argrelmax_wrap [0, 5, 0, 3, 0]) \<and>
   argrelmax_wrap [0, 1, 5, 2, 1] = [2] \<and>
   0 \<in> set (argrelmax_wrap [3, 1, 2]) \<and> 2 \<notin> set (argrelmax_wrap [3, 1, 2]) \<and>
   3 \<in> set (argrelmax_wrap [1, 0, 2, 3])"
proof -
  have g: "\<forall>j<length [0, 5, 0, 3, 0 :: real]. j \<noteq> 1 \<longrightarrow>
             [0, 5, 0, 3, 0 :: real] ! j < [0, 5, 0, 3, 0] ! 1"
    by (auto simp: less_Suc_eq)
  have up: "\<forall>j<2. [0, 1, 5, 2, 1 :: real] ! j < [0, 1, 5, 2, 1] ! (j + 1)"
    by (auto simp: less_Suc_eq numeral_2_eq_2)
  have down: "\<forall>j. 2 \<le> j \<and> j + 1 < length [0, 1, 5, 2, 1 :: real] \<longrightarrow>
                [0, 1, 5, 2, 1 :: real] ! (j + 1) < [0, 1, 5, 2, 1] ! j"
    by (auto simp: less_Suc_eq numeral_2_eq_2)
  note a = argrelmax_wrap_peaks [of "[1, 2, 3]" 0]
  note b = argrelmax_wrap_peaks [of "[3, 2, 1]" 0]
  note c = argrelmax_wrap_peaks [of "[0, 5, 0, 3, 0]" 1]
  note d = argrelmax_wrap_peaks [of "[0, 1, 5, 2, 1]" 2]
  note e = argrelmax_wrap_peaks [of "[3, 1, 2]" 0]
  note f = argrelmax_wrap_peaks [of "[1, 0, 2, 3]" 0]
  have 1: "argrelmax_wrap [1, 2, 3] = [2]" "argrelmax_wrap [3, 2, 1] = [0]"
    using a b by simp_all
  have 2: "1 \<in> set (argrelmax_wrap [0, 5, 0, 3, 0])" using c g by simp
  have 3: "3 \<in> set (argrelmax_wrap [0, 5, 0, 3, 0])"
    using c[THEN conjunct1, rule_format, of 3] by simp
  have 4: "argrelmax_wrap [0, 1, 5, 2, 1] = [2]" using d up down by simp
  have 5: "0 \<in> set (argrelmax_wrap [3, 1, 2])" "2 \<notin> set (argrelmax_wrap [3, 1, 2])"
    using e[THEN conjunct1, rule_format, of 0] e[THEN conjunct1, rule_format, of 2] by simp_all
  have 6: "3 \<in> set (argrelmax_wrap [1, 0, 2, 3])"
    using f[THEN conjunct1, rule_format, of 3] by simp
  show ?thesis using 1 2 3 4 5 6 by simp
qed

text \<open>
  C7 as the specification states it fails: in \<open>[0, 5, 0, 3, 0]\<close> the single global
  maximum is at the interior index 1, and the peaks are the indices 1 and 3.
\<close>

theorem argrelmax_wrap_second_peak:
  "argrelmax_wrap [0, 5, 0, 3, 0] = [1, 3]"
  by code_simp

subsection \<open>Ranking of the peaks\<close>

lemma sort_peaks_heights:
  "map (\<lambda>p. bins ! p) (sort_peaks bins peaks) =
   rev (map (\<lambda>i. map (\<lambda>p. bins ! p) peaks ! i) (argsort (map (\<lambda>p. bins ! p) peaks)))"
proof -
  let ?hs = "map (\<lambda>p. bins ! p) peaks"
  have "set (argsort ?hs) = {0..<length peaks}"
    by (simp add: argsort_def)
  then have "\<And>i. i \<in> set (argsort ?hs) \<Longrightarrow> bins ! (peaks ! i) = ?hs ! i"
    by simp
  then have "map (\<lambda>i. bins ! (peaks ! i)) (argsort ?hs) = map (\<lambda>i. ?hs ! i) (argsort ?hs)"
    by (rule map_cong[OF refl])
  then show ?thesis
    by (simp add: sort_peaks_def rev_map comp_def)
qed

lemma sort_peaks_descending:
  "sorted (rev (map (\<lambda>p. bins ! p) (sort_peaks bins peaks)))"
  unfolding sort_peaks_heights rev_rev_ident argsort_def by (rule sorted_sort_key)

lemma sort_peaks_mset: "mset (sort_peaks bins peaks) = mset peaks"
proof -
  have "mset (sort_peaks bins peaks) = image_mset (\<lambda>i. peaks ! i) (mset [0..<length peaks])"
    by (simp add: sort_peaks_def argsort_def)
  also have "\<dots> = mset (map (\<lambda>i. peaks ! i) [0..<length peaks])" by simp
  also have "\<dots> = mset peaks" by (simp only: map_nth)
  finally show ?thesis .
qed

lemma report_two_peaks:
  assumes "peaks = argrelmax_wrap bins" and "2 \<le> length peaks"
    and "ranked = sort_peaks bins peaks"
    and "tempi = map (\<lambda>tau. np_fdiv (60 * fps) (of_int tau)) lags"
  shows "report fps (bins, lags) 0 =
           (if ranked ! 0 < length lags \<and> ranked ! 1 < length lags
            then Inr (tempi ! (ranked ! 0), tempi ! (ranked ! 1),
                      np_fdiv (bins ! (ranked ! 0)) (bins ! (ranked ! 0) + bins ! (ranked ! 1)))
            else Inl IndexError)"
proof -
  have "length ranked = length peaks"
    using assms(3) by (simp add: sort_peaks_def argsort_def)
  with assms(2) obtain r0 r1 rs where r: "ranked = r0 # r1 # rs"
    by (cases ranked; cases "tl ranked") auto
  have rk: "rank_peaks bins tempi peaks 0 = Inr ranked"
    using assms(3) by (simp add: rank_peaks_def)
  have lt: "length tempi = length lags" using assms(4) by simp
  have tk: "np_take tempi (take 2 ranked) =
            (if r0 < length lags \<and> r1 < length lags then Inr [tempi ! r0, tempi ! r1]
             else Inl IndexError)"
    using r lt by (simp add: np_take_def numeral_2_eq_2)
  from assms(2) have n: "length peaks \<noteq> 0" "length peaks \<noteq> 1" by auto
  show ?thesis
    using n rk tk r assms(1,4)[symmetric] unfolding report_def Let_def fst_conv snd_conv
    by (simp add: numeral_2_eq_2)
qed

lemma detect_is_report:
  assumes "min_bpm \<noteq> 0" and "max_bpm \<noteq> 0"
    and "interval_histogram activations (KernelSize (py_round (fps * act_smooth)))
           \<lfloor>60 * fps / max_bpm\<rfloor> (Some \<lceil>60 * fps / min_bpm\<rceil>) = Inr hist"
    and "truthy hist_smooth = Inr b"
    and "(if b then smooth_histogram hist hist_smooth else Inr hist) = Inr h"
  shows "detect activations fps act_smooth hist_smooth min_bpm max_bpm grouping_dev =
         report fps h grouping_dev"
  using assms by (simp add: detect_def Let_def)

lemma three_peaks_histogram:
  "interval_histogram [2, 0, 1, 0, 0, 0, 3] (KernelSize 0) 1 (Some 7) =
   Inr ([0, 2, 0, 3, 0, 6], [1, 2, 3, 4, 5, 6])"
  by (simp add: interval_histogram_def truthy_def np_mul_def slice_from_def slice_upto_def
        Let_def upto_rec1)

lemma three_peaks: "argrelmax_wrap [0, 2, 0, 3, 0, 6] = [1, 3, 5]"
  by code_simp

lemma three_peaks_ranked: "sort_peaks [0, 2, 0, 3, 0, 6] [1, 3, 5] = [5, 3, 1]"
  by code_simp

text \<open>
  C8. With \<open>grouping_dev = 0\<close> no grouping step is run. For every histogram with two or
  more peaks the ranking is the one of \<open>sort_peaks\<close>, the detected peaks rearranged in
  descending order of their bins, and the result is taken from its first two entries:
  \<open>report\<close>, and with it \<open>detect\<close> on the histogram it has built, returns their two tempi
  and the strength \<open>bins[top1] / (bins[top1] + bins[top2])\<close> when both have a lag, and
  raises \<open>IndexError\<close> when one of them has none.
\<close>

theorem detect_without_grouping:
  assumes "peaks = argrelmax_wrap bins" and "2 \<le> length peaks"
    and "ranked = sort_peaks bins peaks"
    and "tempi = map (\<lambda>tau. np_fdiv (60 * fps) (of_int tau)) lags"
  shows "rank_peaks bins tempi peaks 0 = Inr ranked \<and>
         mset ranked = mset peaks \<and> length ranked = length peaks \<and>
         sorted (rev (map (\<lambda>p. bins ! p) ranked)) \<and>
         report fps (bins, lags) 0 =
           (if ranked ! 0 < length lags \<and> ranked ! 1 < length lags
            then Inr (tempi ! (ranked ! 0), tempi ! (ranked ! 1),
                      np_fdiv (bins ! (ranked ! 0)) (bins ! (ranked ! 0) + bins ! (ranked ! 1)))
            else Inl IndexError) \<and>
         (min_bpm \<noteq> 0 \<and> max_bpm \<noteq> 0 \<and>
          interval_histogram activations (KernelSize (py_round (fps * act_smooth)))
            \<lfloor>60 * fps / max_bpm\<rfloor> (Some \<lceil>60 * fps / min_bpm\<rceil>) = Inr hist \<and>
          truthy hist_smooth = Inr b \<and>
          (if b then smooth_histogram hist hist_smooth else Inr hist) = Inr (bins, lags) \<longrightarrow>
            detect activations fps act_smooth hist_smooth min_bpm max_bpm 0 =
            (if ranked ! 0 < length lags \<and> ranked ! 1 < length lags
             then Inr (tempi ! (ranked ! 0), tempi ! (ranked ! 1),
                       np_fdiv (bins ! (ranked ! 0)) (bins ! (ranked ! 0) + bins ! (ranked ! 1)))
             else Inl IndexError))"
proof (intro conjI impI)
  show "rank_peaks bins tempi peaks 0 = Inr ranked"
    using assms(3) by (simp add: rank_peaks_def)
  show "mset ranked = mset peaks"
    using assms(3) by (simp add: sort_peaks_mset)
  then show "length ranked = length peaks"
    by (rule mset_eq_length)
  show "sorted (rev (map (\<lambda>p. bins ! p) ranked))"
    using assms(3) by (simp add: sort_peaks_descending)
  show r: "report fps (bins, lags) 0 =
           (if ranked ! 0 < length lags \<and> ranked ! 1 < length lags
            then Inr (tempi ! (ranked ! 0), tempi ! (ranked ! 1),
                      np_fdiv (bins ! (ranked ! 0)) (bins ! (ranked ! 0) + bins ! (ranked ! 1)))
            else Inl IndexError)"
    using assms by (rule report_two_peaks)
  assume "min_bpm \<noteq> 0 \<and> max_bpm \<noteq> 0 \<and>
          interval_histogram activations (KernelSize (py_round (fps * act_smooth)))
            \<lfloor>60 * fps / max_bpm\<rfloor> (Some \<lceil>60 * fps / min_bpm\<rceil>) = Inr hist \<and>
          truthy hist_smooth = Inr b \<and>
          (if b then smooth_histogram hist hist_smooth else Inr hist) = Inr (bins, lags)"
  then have "min_bpm \<noteq> 0" "max_bpm \<noteq> 0"
    "interval_histogram activations (KernelSize (py_round (fps * act_smooth)))
            \<lfloor>60 * fps / max_bpm\<rfloor> (Some \<lceil>60 * fps / min_bpm\<rceil>) = Inr hist"
    "truthy hist_smooth = Inr b"
    "(if b then smooth_histogram hist hist_smooth else Inr hist) = Inr (bins, lags)"
    by blast+
  then have "detect activations fps act_smooth hist_smooth min_bpm max_bpm 0 =
             report fps (bins, lags) 0"
    by (rule detect_is_report)
  with r show "detect activations fps act_smooth hist_smooth min_bpm max_bpm 0 =
            (if ranked ! 0 < length lags \<and> ranked ! 1 < length lags
             then Inr (tempi ! (ranked ! 0), tempi ! (ranked ! 1),
                       np_fdiv (bins ! (ranked ! 0)) (bins ! (ranked ! 0) + bins ! (ranked ! 1)))
             else Inl IndexError)"
    by simp
qed

theorem detect_without_grouping_witness:
  "argrelmax_wrap [0, 2, 0, 3, 0, 6] = [1, 3, 5] \<and>
   sort_peaks [0, 2, 0, 3, 0, 6] [1, 3, 5] = [5, 3, 1] \<and>
   rank_peaks [0, 2, 0, 3, 0, 6] (map (\<lambda>tau. np_fdiv (60 * 10) (of_int tau)) [1, 2, 3, 4, 5, 6])
     [1, 3, 5] 0 = Inr [5, 3, 1] \<and>
   report 10 ([0, 2, 0, 3, 0, 6], [1, 2, 3, 4, 5, 6]) 0 = Inr (Fin 100, Fin 150, Fin (2 / 3)) \<and>
   detect [2, 0, 1, 0, 0, 0, 3] 10 0 (KernelSize 0) 90 600 0 =
     Inr (Fin 100, Fin 150, Fin (2 / 3))"
proof -
  have p: "[1, 3, 5] = argrelmax_wrap [0, 2, 0, 3, 0, 6]" by (rule three_peaks[symmetric])
  have r: "[5, 3, 1] = sort_peaks [0, 2, 0, 3, 0, 6] [1, 3, 5]" by (rule three_peaks_ranked[symmetric])
  have h: "interval_histogram [2, 0, 1, 0, 0, 0, 3] (KernelSize (py_round (10 * 0)))
             \<lfloor>60 * 10 / (600::real)\<rfloor> (Some \<lceil>60 * 10 / (90::real)\<rceil>) =
           Inr ([0, 2, 0, 3, 0, 6], [1, 2, 3, 4, 5, 6])"
    using three_peaks_histogram by (simp add: py_round_def)
  have t: "truthy (KernelSize 0) = Inr False" by (simp add: truthy_def)
  note w = detect_without_grouping
    [where peaks = "[1, 3, 5]" and bins = "[0, 2, 0, 3, 0, 6]" and ranked = "[5, 3, 1]" and
      fps = 10 and lags = "[1, 2, 3, 4, 5, 6]" and
      tempi = "map (\<lambda>tau. np_fdiv (60 * 10) (of_int tau)) [1, 2, 3, 4, 5, 6]" and
      min_bpm = 90 and max_bpm = 600 and activations = "[2, 0, 1, 0, 0, 0, 3]" and
      act_smooth = 0 and hist_smooth = "KernelSize 0" and b = False and
      hist = "([0, 2, 0, 3, 0, 6], [1, 2, 3, 4, 5, 6])", OF p _ r refl]
  show ?thesis
    using w h t three_peaks three_peaks_ranked by (simp add: np_fdiv_def)
qed

subsection \<open>detect\<close>

text \<open>
  C10. When the activation smoothing window rounds to exactly one frame, \<open>detect\<close> raises
  \<open>ValueError\<close> for every activation signal (the tempo bounds being non-zero, so that the
  lag bounds exist): the frame count 1 is true, so \<open>interval_histogram\<close> calls
  \<open>smooth_signal\<close>, which has no kernel for the size 1.
\<close>

theorem detect_one_frame_window_raises:
  "py_round (fps * act_smooth) = 1 \<Longrightarrow> min_bpm \<noteq> 0 \<Longrightarrow> max_bpm \<noteq> 0 \<Longrightarrow>
   detect activations fps act_smooth hist_smooth min_bpm max_bpm grouping_dev = Inl ValueError"
  by (simp add: detect_def interval_histogram_def truthy_def smooth_signal_def)

theorem detect_one_frame_window_raises_witness:
  "py_round (100 * 0.005) = 1 \<and> (40::real) \<noteq> 0 \<and> (240::real) \<noteq> 0 \<and>
   detect [0, 1, 0, 1] 100 0.005 (KernelSize 5) 40 240 0 = Inl ValueError"
  using detect_one_frame_window_raises [of 100 "0.005" 40 240 "[0, 1, 0, 1]" "KernelSize 5" 0]
  by (simp add: py_round_def)

subsection \<open>detect on degenerate input\<close>

lemma hist_bins_degenerate:
  "a = [] \<or> (\<forall>tau \<in> set taus. int (length a) \<le> tau) \<Longrightarrow>
   hist_bins a taus = Inr (replicate (length taus) 0)"
proof (induction taus)
  case Nil
  then show ?case by simp
next
  case (Cons tau taus)
  have "slice_from a tau = [] \<and> slice_upto a (- tau) = []"
    using Cons.prems by (auto simp: slice_from_def slice_upto_def)
  then have "np_mul (slice_from a tau) (slice_upto a (- tau)) = Inr []"
    by (simp add: np_mul_def)
  moreover have "hist_bins a taus = Inr (replicate (length taus) 0)"
    using Cons by auto
  ultimately show ?case by simp
qed

lemma argrelmax_wrap_zero: "argrelmax_wrap (replicate n 0) = []"
  by (auto simp: argrelmax_wrap_def Let_def filter_empty_conv)

lemma report_zero_bins:
  "report fps (replicate n 0, lags) grouping_dev = Inr (NO_TEMPO, NO_TEMPO, Fin 0)"
  by (simp add: report_def argrelmax_wrap_zero)

lemma sum_list_all_zero:
  "(\<And>x. x \<in> set xs \<Longrightarrow> f x = (0::real)) \<Longrightarrow> sum_list (map f xs) = 0"
  by (induction xs) simp_all

lemma conv_full_zero: "conv_full (replicate n 0) v = replicate (n + length v - 1) 0"
proof -
  have "\<And>s. (\<Sum>m\<leftarrow>[0..<n]. (if m \<le> s \<and> s - m < length v then replicate n (0::real) ! m * v ! (s - m) else 0)) = 0"
    by (rule sum_list_all_zero) simp
  then show ?thesis
    by (simp add: conv_full_def map_replicate_const)
qed

lemma convolve_same_zero:
  "0 < n \<Longrightarrow> v \<noteq> [] \<Longrightarrow>
   convolve_same (replicate n 0) v = Inr (replicate (max n (length v)) 0)"
  using same_window[of n "length v"]
  by (simp add: convolve_same_def conv_full_zero min_absorb2)

lemma interval_histogram_degenerate:
  assumes "activations = [] \<or> int (length activations) \<le> lo \<or> hi \<le> lo"
  shows "interval_histogram activations (KernelSize 0) lo (Some hi) =
         Inr (replicate (nat (hi - lo)) 0, [lo..hi - 1])"
proof -
  have "activations = [] \<or> (\<forall>tau \<in> set [lo..hi - 1]. int (length activations) \<le> tau)"
    using assms by auto
  then have "hist_bins activations [lo..hi - 1] = Inr (replicate (length [lo..hi - 1]) 0)"
    by (rule hist_bins_degenerate)
  then show ?thesis
    by (simp add: interval_histogram_def truthy_def)
qed

lemma smooth_histogram_zero_bins:
  assumes "1 < k"
  shows "smooth_histogram (replicate n 0, lags) (KernelSize k) =
         (if n = 0 then Inl ValueError else Inr (replicate (max n (nat k)) 0, lags))"
proof (cases "n = 0")
  case True
  then show ?thesis using assms
    by (simp add: smooth_histogram_def smooth_signal_def convolve_same_def)
next
  case False
  have "hamming k \<noteq> []" using assms length_hamming[of k] by auto
  with False have "convolve_same (replicate n 0) (hamming k) = Inr (replicate (max n (nat k)) 0)"
    using convolve_same_zero[of n "hamming k"] by (simp add: length_hamming)
  with False assms show ?thesis
    by (simp add: smooth_histogram_def smooth_signal_def)
qed

lemma report_no_bins: "report fps ([], lags) grouping_dev = Inr (NO_TEMPO, NO_TEMPO, Fin 0)"
  using report_zero_bins [of fps 0 lags grouping_dev] by simp

text \<open>
  C3 (as the code has it). \<open>detect\<close> has no check of its own for an empty activation
  sequence or for the lag bounds. Let the input be degenerate: the activations are
  empty, or \<open>min_tau\<close> is at least their length, or \<open>max_tau \<le> min_tau\<close>. Without
  smoothing of the activations (a window of 0 frames) every bin is zero, no peak is
  found, and \<open>detect\<close> returns \<open>(NO_TEMPO, NO_TEMPO, 0.0)\<close>: always when the histogram is
  not smoothed, and with a histogram kernel size above 1 unless the histogram is empty
  (\<open>max_tau \<le> min_tau\<close>), where the convolution raises \<open>ValueError\<close>. With a window of
  more than one frame, empty activations make the convolution raise \<open>ValueError\<close>.
\<close>

theorem detect_degenerate_input:
  assumes "min_bpm \<noteq> 0" and "max_bpm \<noteq> 0"
    and "min_tau = \<lfloor>60 * fps / max_bpm\<rfloor>" and "max_tau = \<lceil>60 * fps / min_bpm\<rceil>"
  shows "(py_round (fps * act_smooth) = 0 \<and>
          (activations = [] \<or> int (length activations) \<le> min_tau \<or> max_tau \<le> min_tau) \<and>
          truthy hist_smooth = Inr False \<longrightarrow>
            detect activations fps act_smooth hist_smooth min_bpm max_bpm grouping_dev =
            Inr (NO_TEMPO, NO_TEMPO, Fin 0)) \<and>
         (py_round (fps * act_smooth) = 0 \<and>
          (activations = [] \<or> int (length activations) \<le> min_tau \<or> max_tau \<le> min_tau) \<and>
          hist_smooth = KernelSize k \<and> 1 < k \<longrightarrow>
            detect activations fps act_smooth hist_smooth min_bpm max_bpm grouping_dev =
            (if max_tau \<le> min_tau then Inl ValueError else Inr (NO_TEMPO, NO_TEMPO, Fin 0))) \<and>
         (1 < py_round (fps * act_smooth) \<and> activations = [] \<longrightarrow>
            detect activations fps act_smooth hist_smooth min_bpm max_bpm grouping_dev =
            Inl ValueError)"
proof (intro conjI impI)
  assume a: "py_round (fps * act_smooth) = 0 \<and>
          (activations = [] \<or> int (length activations) \<le> min_tau \<or> max_tau \<le> min_tau) \<and>
          truthy hist_smooth = Inr False"
  then have "interval_histogram activations (KernelSize 0) min_tau (Some max_tau) =
         Inr (replicate (nat (max_tau - min_tau)) 0, [min_tau..max_tau - 1])"
    by (intro interval_histogram_degenerate) simp
  with a assms show "detect activations fps act_smooth hist_smooth min_bpm max_bpm grouping_dev =
            Inr (NO_TEMPO, NO_TEMPO, Fin 0)"
    by (simp add: detect_def report_zero_bins)
next
  assume a: "py_round (fps * act_smooth) = 0 \<and>
          (activations = [] \<or> int (length activations) \<le> min_tau \<or> max_tau \<le> min_tau) \<and>
          hist_smooth = KernelSize k \<and> 1 < k"
  then have h: "interval_histogram activations (KernelSize 0) min_tau (Some max_tau) =
         Inr (replicate (nat (max_tau - min_tau)) 0, [min_tau..max_tau - 1])"
    by (intro interval_histogram_degenerate) simp
  from a have t: "truthy hist_smooth = Inr True" by (simp add: truthy_def)
  from a have s: "smooth_histogram (replicate (nat (max_tau - min_tau)) 0, [min_tau..max_tau - 1]) hist_smooth =
      (if nat (max_tau - min_tau) = 0 then Inl ValueError
       else Inr (replicate (max (nat (max_tau - min_tau)) (nat k)) 0, [min_tau..max_tau - 1]))"
    using smooth_histogram_zero_bins[of k] by simp
  show "detect activations fps act_smooth hist_smooth min_bpm max_bpm grouping_dev =
            (if max_tau \<le> min_tau then Inl ValueError else Inr (NO_TEMPO, NO_TEMPO, Fin 0))"
    using a assms(1,2) h t s unfolding detect_def Let_def assms(3,4)[symmetric]
    by (simp add: report_zero_bins)
next
  assume a: "1 < py_round (fps * act_smooth) \<and> activations = []"
  then show "detect activations fps act_smooth hist_smooth min_bpm max_bpm grouping_dev =
            Inl ValueError"
    using assms(1,2)
    by (simp add: detect_def interval_histogram_def truthy_def smooth_signal_def convolve_same_def)
qed

theorem detect_degenerate_input_witness:
  "detect [] 10 0 (KernelSize 0) 60 120 0 = Inr (NO_TEMPO, NO_TEMPO, Fin 0) \<and>
   detect [1] 10 0 (KernelSize 5) 60 120 0 = Inr (NO_TEMPO, NO_TEMPO, Fin 0) \<and>
   detect [1, 0, 1, 0, 1] 1 0 (KernelSize 5) 60 30 0 = Inl ValueError \<and>
   detect [] 10 1 (KernelSize 5) 60 120 0 = Inl ValueError"
  using
    detect_degenerate_input [where min_bpm = 60 and max_bpm = 120 and min_tau = 5 and
      fps = 10 and max_tau = 10 and act_smooth = 0 and activations = "[]" and
      hist_smooth = "KernelSize 0" and k = 5 and grouping_dev = 0]
    detect_degenerate_input [where min_bpm = 60 and max_bpm = 120 and min_tau = 5 and
      fps = 10 and max_tau = 10 and act_smooth = 0 and activations = "[1]" and
      hist_smooth = "KernelSize 5" and k = 5 and grouping_dev = 0]
    detect_degenerate_input [where min_bpm = 60 and max_bpm = 30 and min_tau = 2 and
      fps = 1 and max_tau = 1 and act_smooth = 0 and activations = "[1, 0, 1, 0, 1]" and
      hist_smooth = "KernelSize 5" and k = 5 and grouping_dev = 0]
    detect_degenerate_input [where min_bpm = 60 and max_bpm = 120 and min_tau = 5 and
      fps = 10 and max_tau = 10 and act_smooth = 1 and activations = "[]" and
      hist_smooth = "KernelSize 5" and k = 5 and grouping_dev = 0]
  by (simp add: py_round_def truthy_def)

text \<open>
  C3 as the specification states it fails: on empty activations, on activations no longer
  than the smallest lag, and on lag bounds with \<open>max_tau \<le> min_tau\<close>, \<open>detect\<close> returns
  the \<open>NO_TEMPO\<close> result and no error.
\<close>

theorem detect_degenerate_no_error:
  "detect [] 10 0 (KernelSize 0) 60 120 0 = Inr (NO_TEMPO, NO_TEMPO, Fin 0) \<and>
   detect [1] 10 0 (KernelSize 0) 60 120 0 = Inr (NO_TEMPO, NO_TEMPO, Fin 0) \<and>
   detect [1, 0, 1, 0, 1] 1 0 (KernelSize 0) 60 30 0 = Inr (NO_TEMPO, NO_TEMPO, Fin 0)"
  by (simp add: detect_def py_round_def interval_histogram_degenerate truthy_def
        report_zero_bins report_no_bins)

subsection \<open>Grouping: the winning row\<close>

lemma argmax_from_spec:
  assumes "i = length pre" and "bi < i" and "best = (pre @ xs) ! bi"
    and "\<forall>j<i. (pre @ xs) ! j \<le> best" and "\<forall>j<bi. (pre @ xs) ! j < best"
  shows "argmax_from best bi i xs < length (pre @ xs) \<and>
         (\<forall>j<length (pre @ xs). (pre @ xs) ! j \<le> (pre @ xs) ! argmax_from best bi i xs) \<and>
         (\<forall>j<argmax_from best bi i xs. (pre @ xs) ! j < (pre @ xs) ! argmax_from best bi i xs)"
  using assms
proof (induction xs arbitrary: pre best bi i)
  case Nil
  then show ?case by simp
next
  case (Cons x xs)
  let ?ys = "pre @ x # xs"
  have ys: "(pre @ [x]) @ xs = ?ys" by simp
  have xi: "?ys ! i = x" using Cons.prems(1) by simp
  show ?case
  proof (cases "best < x")
    case True
    have le: "\<forall>j<Suc i. ?ys ! j \<le> x"
    proof (intro allI impI)
      fix j assume "j < Suc i"
      then consider "j < i" | "j = i" by arith
      then show "?ys ! j \<le> x"
      proof cases
        case 1
        with Cons.prems(4) have "?ys ! j \<le> best" by simp
        with True show ?thesis by simp
      next
        case 2
        with xi show ?thesis by simp
      qed
    qed
    have lt: "\<forall>j<i. ?ys ! j < x"
    proof (intro allI impI)
      fix j assume "j < i"
      with Cons.prems(4) have "?ys ! j \<le> best" by simp
      with True show "?ys ! j < x" by simp
    qed
    have "argmax_from x i (Suc i) xs < length ((pre @ [x]) @ xs) \<and>
         (\<forall>j<length ((pre @ [x]) @ xs). ((pre @ [x]) @ xs) ! j \<le> ((pre @ [x]) @ xs) ! argmax_from x i (Suc i) xs) \<and>
         (\<forall>j<argmax_from x i (Suc i) xs. ((pre @ [x]) @ xs) ! j < ((pre @ [x]) @ xs) ! argmax_from x i (Suc i) xs)"
    proof (rule Cons.IH)
      show "Suc i = length (pre @ [x])" using Cons.prems(1) by simp
      show "i < Suc i" by simp
      show "x = ((pre @ [x]) @ xs) ! i" unfolding ys using xi by simp
      show "\<forall>j<Suc i. ((pre @ [x]) @ xs) ! j \<le> x" unfolding ys by (rule le)
      show "\<forall>j<i. ((pre @ [x]) @ xs) ! j < x" unfolding ys by (rule lt)
    qed
    then show ?thesis unfolding ys using True by simp
  next
    case False
    have le: "\<forall>j<Suc i. ?ys ! j \<le> best"
    proof (intro allI impI)
      fix j assume "j < Suc i"
      then consider "j < i" | "j = i" by arith
      then show "?ys ! j \<le> best"
      proof cases
        case 1
        with Cons.prems(4) show ?thesis by simp
      next
        case 2
        with xi False show ?thesis by simp
      qed
    qed
    have "argmax_from best bi (Suc i) xs < length ((pre @ [x]) @ xs) \<and>
         (\<forall>j<length ((pre @ [x]) @ xs). ((pre @ [x]) @ xs) ! j \<le> ((pre @ [x]) @ xs) ! argmax_from best bi (Suc i) xs) \<and>
         (\<forall>j<argmax_from best bi (Suc i) xs. ((pre @ [x]) @ xs) ! j < ((pre @ [x]) @ xs) ! argmax_from best bi (Suc i) xs)"
    proof (rule Cons.IH)
      show "Suc i = length (pre @ [x])" using Cons.prems(1) by simp
      show "bi < Suc i" using Cons.prems(2) by simp
      show "best = ((pre @ [x]) @ xs) ! bi" unfolding ys using Cons.prems(3) by simp
      show "\<forall>j<Suc i. ((pre @ [x]) @ xs) ! j \<le> best" unfolding ys by (rule le)
      show "\<forall>j<bi. ((pre @ [x]) @ xs) ! j < best" unfolding ys using Cons.prems(5) by simp
    qed
    then show ?thesis unfolding ys using False by simp
  qed
qed

lemma argmax_spec:
  assumes "xs \<noteq> []"
  shows "argmax xs < length xs \<and> (\<forall>j<length xs. xs ! j \<le> xs ! argmax xs) \<and>
         (\<forall>j<argmax xs. xs ! j < xs ! argmax xs)"
proof -
  from assms obtain x xs' where xs: "xs = x # xs'" by (cases xs) auto
  have "argmax_from x 0 1 xs' < length ([x] @ xs') \<and>
         (\<forall>j<length ([x] @ xs'). ([x] @ xs') ! j \<le> ([x] @ xs') ! argmax_from x 0 1 xs') \<and>
         (\<forall>j<argmax_from x 0 1 xs'. ([x] @ xs') ! j < ([x] @ xs') ! argmax_from x 0 1 xs')"
    by (rule argmax_from_spec) simp_all
  then show ?thesis by (simp add: xs argmax_def)
qed

lemma np_round_unique:
  assumes "real_of_int n - 1 / 2 < x" and "x < real_of_int n + 1 / 2"
  shows "np_round x = n"
proof (cases "real_of_int n \<le> x")
  case True
  then have f: "\<lfloor>x\<rfloor> = n" using assms(2) by (intro floor_unique) simp_all
  then show ?thesis using assms(2) by (simp add: np_round_def Let_def)
next
  case False
  then have f: "\<lfloor>x\<rfloor> = n - 1" using assms(1) by (intro floor_unique) simp_all
  then show ?thesis using assms(1) False by (simp add: np_round_def Let_def)
qed

lemma np_round_of_int: "np_round (real_of_int n) = n"
  by (rule np_round_unique) simp_all

lemma log_2_3_bounds: "5 / 4 < log 2 (3::real)" "log 2 (3::real) < 7 / 4"
proof -
  have e: "log 2 ((3::real) ^ 4) = 4 * log 2 3"
    using log_nat_power[of 3 2 4] by simp
  have "real 5 < log 2 (81::real)"
    by (rule less_log_of_power) simp_all
  moreover have "log 2 (real 81) < 7"
    using log_of_power_less[of 81 2 7] by simp
  ultimately show "5 / 4 < log 2 (3::real)" "log 2 (3::real) < 7 / 4"
    using e by simp_all
qed

lemma log_2_ratios:
  "log 2 (4 / 3 :: real) = 2 - log 2 3" "log 2 (3 / 2 :: real) = log 2 3 - 1"
  "log 2 (3 / 4 :: real) = log 2 3 - 2" "log 2 (2 / 3 :: real) = 1 - log 2 3"
  "log 2 (1 / 2 :: real) = - 1"
proof -
  have four: "log 2 (4::real) = 2"
    using log_nat_power[of 2 2 2] by simp
  show "log 2 (4 / 3 :: real) = 2 - log 2 3" by (simp add: log_divide four)
  show "log 2 (3 / 2 :: real) = log 2 3 - 1" by (simp add: log_divide)
  show "log 2 (3 / 4 :: real) = log 2 3 - 2" by (simp add: log_divide four)
  show "log 2 (2 / 3 :: real) = 1 - log 2 3" by (simp add: log_divide)
  show "log 2 (1 / 2 :: real) = - 1" by (simp add: log_divide)
qed

lemma unrelated_half:
  assumes "1 / 4 < \<bar>l\<bar>" and "\<bar>l\<bar> < 3 / 4"
  shows "\<not> (let r = of_int (np_round (\<bar>l\<bar> / (1 / 2))) * (1 / 2 :: real) in r = of_int \<lfloor>r\<rfloor>)"
proof -
  have "np_round (\<bar>l\<bar> / (1 / 2)) = 1"
    using assms by (intro np_round_unique) simp_all
  then show ?thesis by simp
qed

lemma related_entries:
  "\<not> related 2 (1 / 2) (Fin 150) (Fin 200)" "\<not> related 2 (1 / 2) (Fin 150) (Fin 100)"
  "\<not> related 2 (1 / 2) (Fin 200) (Fin 150)" "related 2 (1 / 2) (Fin 200) (Fin 100)"
  "\<not> related 2 (1 / 2) (Fin 100) (Fin 150)" "related 2 (1 / 2) (Fin 100) (Fin 200)"
  "related 2 (1 / 2) (Fin 150) (Fin 150)" "related 2 (1 / 2) (Fin 200) (Fin 200)"
  "related 2 (1 / 2) (Fin 100) (Fin 100)"
proof -
  note b = log_2_3_bounds
  show "\<not> related 2 (1 / 2) (Fin 150) (Fin 200)"
    using unrelated_half[of "log 2 (4 / 3)"] b by (simp add: related_def log_2_ratios)
  show "\<not> related 2 (1 / 2) (Fin 150) (Fin 100)"
    using unrelated_half[of "log 2 (2 / 3)"] b by (simp add: related_def log_2_ratios)
  show "\<not> related 2 (1 / 2) (Fin 200) (Fin 150)"
    using unrelated_half[of "log 2 (3 / 4)"] b by (simp add: related_def log_2_ratios)
  show "\<not> related 2 (1 / 2) (Fin 100) (Fin 150)"
    using unrelated_half[of "log 2 (3 / 2)"] b by (simp add: related_def log_2_ratios)
  show "related 2 (1 / 2) (Fin 200) (Fin 100)"
    using np_round_of_int[of 2] by (simp add: related_def log_2_ratios)
  show "related 2 (1 / 2) (Fin 100) (Fin 200)"
    using np_round_of_int[of 2] by (simp add: related_def)
  show "related 2 (1 / 2) (Fin 150) (Fin 150)" "related 2 (1 / 2) (Fin 200) (Fin 200)"
    "related 2 (1 / 2) (Fin 100) (Fin 100)"
    using np_round_of_int[of 0] by (simp_all add: related_def)
qed

lemma double_matrix:
  "relation_matrix 2 (1 / 2) [Fin 150, Fin 200, Fin 100] =
   [[True, False, False], [False, True, True], [False, True, True]]"
  by (simp add: relation_matrix_def related_entries)

lemma row_counts_nth:
  "i < length t \<Longrightarrow>
   row_counts (relation_matrix base grouping_dev t) ! i =
   length (filter (\<lambda>tj. related base grouping_dev (t ! i) tj) t)"
  by (simp add: row_counts_def relation_matrix_def filter_map comp_def)

text \<open>
  C5 (as the code has it). For either relation (base 2 or base 3, the statement holds
  for every base), the row that is selected is the first one with the greatest number of
  flagged entries: the count of a row is the number of peaks related to its peak, the
  peak itself included, and the bin heights play no part in the selection. The heights
  only enter the strengths of the selected row.
\<close>

theorem winning_row_anchor:
  assumes "t \<noteq> []"
  shows "let m = relation_matrix base grouping_dev t; a = argmax (row_counts m)
         in a < length t \<and>
            (\<forall>i<length t. row_counts m ! i =
                 length (filter (\<lambda>tj. related base grouping_dev (t ! i) tj) t)) \<and>
            (\<forall>i<length t. row_counts m ! i \<le> row_counts m ! a) \<and>
            (\<forall>i<a. row_counts m ! i < row_counts m ! a) \<and>
            winning_row heights m = map2 (\<lambda>h f. if f then h else 0) heights (m ! a)"
proof -
  let ?m = "relation_matrix base grouping_dev t"
  let ?a = "argmax (row_counts ?m)"
  have len: "length (row_counts ?m) = length t"
    by (simp add: row_counts_def relation_matrix_def)
  with assms have ne: "row_counts ?m \<noteq> []" by auto
  note am = argmax_spec[OF ne]
  have 1: "?a < length t" using am len by simp
  have 2: "\<forall>i<length t. row_counts ?m ! i =
                 length (filter (\<lambda>tj. related base grouping_dev (t ! i) tj) t)"
    by (simp add: row_counts_nth)
  have 3: "\<forall>i<length t. row_counts ?m ! i \<le> row_counts ?m ! ?a"
    using am len by simp
  have 4: "\<forall>i<?a. row_counts ?m ! i < row_counts ?m ! ?a"
    using am by simp
  have 5: "winning_row heights ?m = map2 (\<lambda>h f. if f then h else 0) heights (?m ! ?a)"
    by (simp add: winning_row_def)
  from 1 2 3 4 5 show ?thesis unfolding Let_def by blast
qed

theorem winning_row_anchor_witness:
  "[Fin 150, Fin 200, Fin 100] \<noteq> [] \<and>
   (let m = relation_matrix 2 (1 / 2) [Fin 150, Fin 200, Fin 100]; a = argmax (row_counts m)
    in a < length [Fin 150, Fin 200, Fin 100] \<and>
       (\<forall>i<length [Fin 150, Fin 200, Fin 100]. row_counts m ! i =
            length (filter (\<lambda>tj. related 2 (1 / 2) ([Fin 150, Fin 200, Fin 100] ! i) tj)
                      [Fin 150, Fin 200, Fin 100])) \<and>
       (\<forall>i<length [Fin 150, Fin 200, Fin 100]. row_counts m ! i \<le> row_counts m ! a) \<and>
       (\<forall>i<a. row_counts m ! i < row_counts m ! a) \<and>
       winning_row [10, 3, 2] m = map2 (\<lambda>h f. if f then h else 0) [10, 3, 2] (m ! a))"
proof -
  have ne: "[Fin 150, Fin 200, Fin 100] \<noteq> []" by simp
  show ?thesis
    by (rule conjI[OF ne winning_row_anchor[OF ne]])
qed

text \<open>
  C5 as the specification states it fails. Three peaks ranked by heights \<open>10, 3, 2\<close> with
  the tempi 150, 200 and 100 (lags 40, 30 and 60 at 100 frames per second) and
  \<open>grouping_dev = 0.5\<close>: the second and the third tempo are a factor of two apart, the
  first is related to none of them. The code selects the row of the second peak, with
  two flags, and its strengths \<open>[0, 3, 2]\<close>; the total flagged strength of that row (5, or
  2 over the other peaks) is less than the one of the first row (10), respectively of the
  third row (3 over the other peaks).
\<close>

theorem winning_row_not_by_strength:
  "argmax (row_counts (relation_matrix 2 (1 / 2) [Fin 150, Fin 200, Fin 100])) = 1 \<and>
   winning_row [10, 3, 2] (relation_matrix 2 (1 / 2) [Fin 150, Fin 200, Fin 100]) = [0, 3, 2] \<and>
   flagged_strength [10, 3, 2] (relation_matrix 2 (1 / 2) [Fin 150, Fin 200, Fin 100]) 1 <
   flagged_strength [10, 3, 2] (relation_matrix 2 (1 / 2) [Fin 150, Fin 200, Fin 100]) 0 \<and>
   flagged_strength_others [10, 3, 2] (relation_matrix 2 (1 / 2) [Fin 150, Fin 200, Fin 100]) 1 <
   flagged_strength_others [10, 3, 2] (relation_matrix 2 (1 / 2) [Fin 150, Fin 200, Fin 100]) 2"
  by (simp add: double_matrix row_counts_def argmax_def winning_row_def flagged_strength_def
        flagged_strength_others_def)

subsection \<open>The result of detect\<close>

text \<open>
  The three branches of \<open>detect\<close> after the peaks are found, for peaks that have a lag:
  no peak, one peak, and two or more peaks with the two best ranked ones.
\<close>

lemma report_branches:
  assumes "peaks = argrelmax_wrap bins"
    and "tempi = map (\<lambda>tau. np_fdiv (60 * fps) (of_int tau)) lags"
  shows "(length peaks = 0 \<longrightarrow>
            report fps (bins, lags) grouping_dev = Inr (NO_TEMPO, NO_TEMPO, Fin 0)) \<and>
         (length peaks = 1 \<and> peaks ! 0 < length lags \<longrightarrow>
            report fps (bins, lags) grouping_dev = Inr (tempi ! (peaks ! 0), NO_TEMPO, Fin 1)) \<and>
         (2 \<le> length peaks \<and> rank_peaks bins tempi peaks grouping_dev = Inr ranked \<and>
          2 \<le> length ranked \<and> ranked ! 0 < length lags \<and> ranked ! 1 < length lags \<longrightarrow>
            report fps (bins, lags) grouping_dev =
            Inr (tempi ! (ranked ! 0), tempi ! (ranked ! 1),
                 np_fdiv (bins ! (ranked ! 0)) (bins ! (ranked ! 0) + bins ! (ranked ! 1))))"
proof (intro conjI impI)
  assume "length peaks = 0"
  then show "report fps (bins, lags) grouping_dev = Inr (NO_TEMPO, NO_TEMPO, Fin 0)"
    using assms by (simp add: report_def Let_def)
next
  assume a: "length peaks = 1 \<and> peaks ! 0 < length lags"
  then have "peaks \<noteq> []" by auto
  moreover have "length tempi = length lags" using assms(2) by simp
  ultimately show "report fps (bins, lags) grouping_dev = Inr (tempi ! (peaks ! 0), NO_TEMPO, Fin 1)"
    using a assms[symmetric] unfolding report_def Let_def fst_conv snd_conv
    by (simp add: np_index_def)
next
  assume a: "2 \<le> length peaks \<and> rank_peaks bins tempi peaks grouping_dev = Inr ranked \<and>
          2 \<le> length ranked \<and> ranked ! 0 < length lags \<and> ranked ! 1 < length lags"
  then obtain r0 r1 rs where r: "ranked = r0 # r1 # rs"
    by (cases ranked; cases "tl ranked") auto
  with a have t: "np_take tempi (take 2 ranked) = Inr [tempi ! r0, tempi ! r1]"
    using assms(2) by (simp add: np_take_def numeral_2_eq_2)
  from a have n: "length peaks \<noteq> 0" "length peaks \<noteq> 1" by auto
  show "report fps (bins, lags) grouping_dev =
            Inr (tempi ! (ranked ! 0), tempi ! (ranked ! 1),
                 np_fdiv (bins ! (ranked ! 0)) (bins ! (ranked ! 0) + bins ! (ranked ! 1)))"
    using a n t r assms[symmetric] unfolding report_def Let_def fst_conv snd_conv
    by (simp add: numeral_2_eq_2)
qed

lemma narrow_histogram:
  "interval_histogram [1, 0, 0, 0, 0, 1, 0, 0, 0, 0, 1] (KernelSize 0) 4 (Some 6) =
   Inr ([0, 2], [4, 5])"
  by (simp add: interval_histogram_def truthy_def np_mul_def slice_from_def slice_upto_def)

lemma narrow_histogram_smoothed:
  "smooth_histogram ([0, 2], [4, 5]) (KernelSize 5) = Inr ([0, 4 / 25, 27 / 25, 2, 27 / 25], [4, 5])"
  by (simp add: smooth_histogram_def smooth_signal_def hamming_5 convolve_same_def
        conv_full_def upt_rec)

lemma narrow_peaks: "argrelmax_wrap [0, 4 / 25, 27 / 25, 2, 27 / 25] = [3]"
  by code_simp

text \<open>
  C1 at a failing input. At 10 frames per second with the tempo bounds 100 and 150 there
  are two lags, 4 and 5. The histogram \<open>[0, 2]\<close> of unit impulses five frames apart,
  smoothed with the default kernel size 5, has five bins, and its one peak is at index 3,
  for which there is no lag: \<open>detect\<close> raises \<open>IndexError\<close> where one peak should give
  \<open>(tempo, NO_TEMPO, 1.0)\<close>.
\<close>

theorem detect_peak_without_lag:
  "detect [1, 0, 0, 0, 0, 1, 0, 0, 0, 0, 1] 10 0 (KernelSize 5) 100 150 0 = Inl IndexError"
  by (simp add: detect_def py_round_def narrow_histogram truthy_def narrow_histogram_smoothed
        report_def narrow_peaks np_index_def Let_def)

end
